theory Spec2Isabelle
  imports Main
begin

section \<open>Values of the Go program\<close>

text \<open>
  An \<open>error\<close> value is known to the package only through its message. A value handed to
  \<open>panic\<close> and seen again by \<open>recover()\<close> either implements \<open>error\<close> or does not; of a
  value that does not, the package uses nothing but its \<open>%v\<close> rendering, which is what
  \<open>PanicValue\<close> carries. (\<open>recover()\<close> is taken to be non-nil whenever the callable
  panicked, as the Go runtime guarantees since version 1.21.)
\<close>

datatype error = Err string

datatype panic_val = PanicError error | PanicValue string

text \<open>A value of interface type \<open>os.Signal\<close>: a \<open>syscall.Signal\<close> (an integer) or some other type.\<close>

datatype os_signal = SyscallSignal int | OtherSignal string

text \<open>A channel made by \<open>make(chan os.Signal, n)\<close>; \<open>None\<close> of \<open>chan option\<close> is the nil channel.\<close>

datatype chan = Chan nat

text \<open>
  The package-level variables (lines 12-27) together with the state \<open>user\<close> of the
  surrounding program, which is everything a callable of the user can read and write.
  \<open>OnError\<close> is nil (\<open>None\<close>) or a sink; a sink is taken to return normally and to act
  on the user's state.
\<close>

record 'u globals =
  ExitWithSignalCode :: bool
  ExitCodeOk :: int
  ExitCodeErr :: int
  DefaultSignals :: "os_signal list"
  OnError :: "(error \<Rightarrow> 'u \<Rightarrow> 'u) option"
  user :: 'u

text \<open>
  A call of a \<open>func() error\<close>: it panics with a value (\<open>Inl\<close>) or returns nil or an error
  (\<open>Inr\<close>), and leaves the variables changed. A call of a \<open>func()\<close> panics or returns.
\<close>

type_synonym 'u func_error = "'u globals \<Rightarrow> (panic_val + error option) \<times> 'u globals"

type_synonym 'u func = "'u globals \<Rightarrow> panic_val option \<times> 'u globals"

record 'u closerFunc =
  fn :: "'u func_error option"

text \<open>
  One entry of the record of calls made by a cleanup pass: the index whose callable was
  invoked and the \<open>err\<close> that \<open>exec\<close> returned for it. The record is an observation of
  the run, not data of the program.
\<close>

type_synonym event = "nat \<times> error option"

section \<open>closerFunc.exec (lines 33-48)\<close>

text \<open>The deferred function of \<open>exec\<close>: the error assigned to \<open>err\<close> for a recovered value.\<close>

definition recovered :: "panic_val \<Rightarrow> error" where
  "recovered p = (case p of PanicError perr \<Rightarrow> perr | PanicValue v \<Rightarrow> Err (''panic: '' @ v))"

text \<open>
  The result is \<open>(called, err, cf, g)\<close>: whether \<open>cf.fn()\<close> was evaluated, the returned
  \<open>err\<close>, the struct and the variables afterwards. In \<open>err, cf.fn = cf.fn(), nil\<close> the
  right-hand side is evaluated before anything is assigned, so when the call panics
  neither assignment takes place and only the deferred function sets \<open>err\<close>.
\<close>

definition exec :: "'u closerFunc \<Rightarrow> 'u globals \<Rightarrow> bool \<times> error option \<times> 'u closerFunc \<times> 'u globals" where
  "exec cf g =
     (case fn cf of
        None \<Rightarrow> (False, None, cf, g)
      | Some f \<Rightarrow>
          (case f g of
             (Inr err, g') \<Rightarrow> (True, err, cf\<lparr>fn := None\<rparr>, g')
           | (Inl p, g') \<Rightarrow> (True, Some (recovered p), cf, g')))"

section \<open>closerFuncs.cleanup (lines 52-63)\<close>

text \<open>Lines 57-59: the call of the sink, when one is set.\<close>

definition report :: "error \<Rightarrow> 'u globals \<Rightarrow> 'u globals" where
  "report err g = (case OnError g of None \<Rightarrow> g | Some sink \<Rightarrow> g\<lparr>user := sink err (user g)\<rparr>)"

function cleanup_loop ::
  "int \<Rightarrow> 'u closerFunc list \<Rightarrow> bool \<Rightarrow> event list \<Rightarrow> 'u globals
     \<Rightarrow> bool \<times> 'u closerFunc list \<times> event list \<times> 'u globals" where
  "cleanup_loop i cfs errored tr g =
     (if i > -1 then
        (case exec (cfs ! nat i) g of
           (called, err, cf', g') \<Rightarrow>
             (case err of
                None \<Rightarrow>
                  cleanup_loop (i - 1) (cfs[nat i := cf']) errored
                    (if called then tr @ [(nat i, err)] else tr) g'
              | Some e \<Rightarrow>
                  cleanup_loop (i - 1) (cfs[nat i := cf']) True
                    (if called then tr @ [(nat i, err)] else tr) (report e g')))
      else (errored, cfs, tr, g))"
  by pat_completeness auto
termination
  by (relation "measure (\<lambda>(i, cfs, errored, tr, g). nat (i + 1))") auto

declare cleanup_loop.simps [simp del]

definition cleanup :: "'u closerFunc list \<Rightarrow> 'u globals \<Rightarrow> bool \<times> 'u closerFunc list \<times> event list \<times> 'u globals" where
  "cleanup cfs g = cleanup_loop (int (length cfs) - 1) cfs False [] g"

section \<open>The closer and the process around it\<close>

text \<open>
  The struct \<open>closer\<close> (lines 65-70). \<open>once_done\<close> is the state of the embedded
  \<open>sync.Once\<close>. The embedded mutex has no field: every access to \<open>closers\<close> and \<open>sigCh\<close>
  in the source happens with the lock held, and each operation below is one such
  critical section taken as a single step.
\<close>

record 'u closer =
  once_done :: bool
  sigCh :: "chan option"
  closers :: "'u closerFunc list"

text \<open>
  The process: the variables, the one closer \<open>gC\<close>, the arrays made by \<open>deferFuncs\<close> and
  kept alive by the returned closures (\<open>arrays p ! a\<close> is the array at address \<open>a\<close>),
  the number of goroutines running \<open>waitForSignal\<close>, and what package \<open>os/signal\<close> was
  told about \<open>sigCh\<close>: the argument lists of the \<open>signal.Notify\<close> calls made since the
  last \<open>signal.Stop\<close>.
\<close>

record 'u process =
  vars :: "'u globals"
  gC :: "'u closer"
  arrays :: "'u closerFunc list list"
  listeners :: nat
  notified :: "os_signal list list"

definition init_process :: "'u globals \<Rightarrow> 'u process" where
  "init_process g =
     \<lparr>vars = g, gC = \<lparr>once_done = False, sigCh = None, closers = []\<rparr>,
      arrays = [], listeners = 0, notified = []\<rparr>"

subsection \<open>closer.waitForSignal (lines 72-83)\<close>

text \<open>The body of the loop for one received \<open>sig\<close>; the result is the argument of \<open>os.Exit\<close>
  and the process at that moment.\<close>

definition waitForSignal :: "os_signal \<Rightarrow> 'u process \<Rightarrow> int \<times> 'u process" where
  "waitForSignal sig p =
     (case cleanup (closers (gC p)) (vars p) of
        (errored, cfs', tr, g') \<Rightarrow>
          let p' = p\<lparr>gC := (gC p)\<lparr>closers := cfs'\<rparr>, vars := g'\<rparr> in
          (case sig of
             SyscallSignal n \<Rightarrow> if ExitWithSignalCode g' then (n, p') else (ExitCodeErr g', p')
           | OtherSignal s \<Rightarrow> (ExitCodeErr g', p')))"

subsection \<open>closer.deferFuncs (lines 85-108)\<close>

text \<open>
  An argument of dynamic type \<open>func()\<close>, \<open>func() error\<close> (possibly a nil function), a type
  implementing \<open>io.Closer\<close> (given by its \<open>Close\<close> method), or anything else, the nil
  interface included.
\<close>

datatype 'u arg =
    FuncVoid "'u func"
  | FuncError "'u func_error option"
  | IoCloser "'u func_error"
  | Unsupported

text \<open>Line 91: \<open>func() error { fn(); return nil }\<close>.\<close>

definition returning_nil :: "'u func \<Rightarrow> 'u func_error" where
  "returning_nil f = (\<lambda>g. case f g of (None, g') \<Rightarrow> (Inr None, g') | (Some p, g') \<Rightarrow> (Inl p, g'))"

text \<open>
  The type switch of lines 89-98 on one argument: the value assigned to \<open>cfn.fn\<close>, or
  the panic of the default case.
\<close>

definition type_switch :: "'u arg \<Rightarrow> panic_val + 'u func_error option" where
  "type_switch a =
     (case a of
        FuncVoid f \<Rightarrow> Inr (Some (returning_nil f))
      | FuncError f \<Rightarrow> Inr f
      | IoCloser c \<Rightarrow> Inr (Some c)
      | Unsupported \<Rightarrow> Inl (PanicValue ''supported closers: func(), func() error and io.Closer''))"

text \<open>The loop of lines 87-99 from index \<open>i\<close> on, over the array made at line 86.\<close>

fun fill :: "nat \<Rightarrow> 'u arg list \<Rightarrow> 'u closerFunc list \<Rightarrow> panic_val + 'u closerFunc list" where
  "fill i [] cfs = Inr cfs"
| "fill i (a # as) cfs =
     (case type_switch a of
        Inl v \<Rightarrow> Inl v
      | Inr f \<Rightarrow> fill (Suc i) as (cfs[i := (cfs ! i)\<lparr>fn := f\<rparr>]))"

text \<open>The closure returned by \<open>deferFuncs\<close>, known by the address of the array it captured.\<close>

datatype trigger = Trigger nat

definition deferFuncs :: "'u arg list \<Rightarrow> 'u process \<Rightarrow> (panic_val + trigger) \<times> 'u process" where
  "deferFuncs fns p =
     (case fill 0 fns (replicate (length fns) \<lparr>fn = None\<rparr>) of
        Inl v \<Rightarrow> (Inl v, p)
      | Inr cfs \<Rightarrow>
          (Inr (Trigger (length (arrays p))),
           p\<lparr>gC := (gC p)\<lparr>closers := closers (gC p) @ cfs\<rparr>, arrays := arrays p @ [cfs]\<rparr>))"

text \<open>
  Calling the closure of lines 103-107: a pass over the captured array. The result also
  gives the calls the pass made. A closure exists only for an array that was made, so
  the other branch is never taken by the program.
\<close>

definition invoke :: "trigger \<Rightarrow> 'u process \<Rightarrow> event list \<times> 'u process" where
  "invoke t p =
     (case t of Trigger a \<Rightarrow>
        if a < length (arrays p) then
          (case cleanup (arrays p ! a) (vars p) of
             (errored, cfs', tr, g') \<Rightarrow> (tr, p\<lparr>arrays := (arrays p)[a := cfs'], vars := g'\<rparr>))
        else ([], p))"

subsection \<open>closer.reinit, get, SetSignals, Defer, Exit (lines 110-167)\<close>

text \<open>
  The two calls into package \<open>os/signal\<close>, as far as the closer is concerned:
  \<open>signal.Notify(c.sigCh, sigs...)\<close> adds a registration for the channel,
  \<open>signal.Stop(c.sigCh)\<close> removes all of them.
\<close>

definition signal_Notify :: "os_signal list \<Rightarrow> 'u process \<Rightarrow> 'u process" where
  "signal_Notify sigs p = p\<lparr>notified := notified p @ [sigs]\<rparr>"

definition signal_Stop :: "'u process \<Rightarrow> 'u process" where
  "signal_Stop p = p\<lparr>notified := []\<rparr>"

text \<open>\<open>go c.waitForSignal()\<close> adds one listening goroutine.\<close>

definition reinit :: "bool \<Rightarrow> os_signal list \<Rightarrow> 'u process \<Rightarrow> 'u process" where
  "reinit force signals p =
     (let signals' = (if length signals = 0 then DefaultSignals (vars p) else signals) in
      if sigCh (gC p) = None then
        signal_Notify signals'
          (p\<lparr>gC := (gC p)\<lparr>sigCh := Some (Chan 1)\<rparr>, listeners := listeners p + 1\<rparr>)
      else if \<not> force then p
      else signal_Notify signals' (signal_Stop p))"

definition get :: "'u process \<Rightarrow> 'u process" where
  "get p =
     (if once_done (gC p) then p
      else (let p' = reinit False [] p in p'\<lparr>gC := (gC p')\<lparr>once_done := True\<rparr>\<rparr>))"

definition SetSignals :: "os_signal list \<Rightarrow> 'u process \<Rightarrow> 'u process" where
  "SetSignals signals p = reinit True signals p"

definition Defer :: "'u arg list \<Rightarrow> 'u process \<Rightarrow> (panic_val + trigger) \<times> 'u process" where
  "Defer fns p = deferFuncs fns (get p)"

text \<open>The result is the argument of \<open>os.Exit\<close> and the process at that moment.\<close>

definition Exit :: "int \<Rightarrow> 'u process \<Rightarrow> int \<times> 'u process" where
  "Exit code p =
     (let c = get p in
      case cleanup (closers (gC c)) (vars c) of
        (erred, cfs', tr, g') \<Rightarrow>
          let p' = c\<lparr>gC := (gC c)\<lparr>closers := cfs'\<rparr>, vars := g'\<rparr> in
          if code \<noteq> -1 then (code, p')
          else if erred then (ExitCodeErr g', p')
          else (ExitCodeOk g', p'))"

section \<open>Runs of the process\<close>

text \<open>
  What the surrounding program can do with the package and go on afterwards: call
  \<open>SetSignals\<close>, call \<open>Defer\<close> (recovering from its panic, if any), or call a closure it
  got from \<open>Defer\<close>. Each call is one step; a run is a sequence of calls.
\<close>

datatype 'u op = CallSetSignals "os_signal list" | CallDefer "'u arg list" | CallTrigger trigger

fun step :: "'u op \<Rightarrow> 'u process \<Rightarrow> 'u process" where
  "step (CallSetSignals signals) p = SetSignals signals p"
| "step (CallDefer fns) p = snd (Defer fns p)"
| "step (CallTrigger t) p = snd (invoke t p)"

fun run :: "'u op list \<Rightarrow> 'u process \<Rightarrow> 'u process" where
  "run [] p = p"
| "run (c # cs) p = run cs (step c p)"

section \<open>One iteration of the pass, and the pass as the specification words it\<close>

text \<open>
  The body of the loop of \<open>cleanup\<close> at index \<open>i\<close>, on the entry alone: whether it set
  \<open>errored\<close>, the call it made, the entry and the variables afterwards.
\<close>

definition exec_at :: "nat \<Rightarrow> 'u closerFunc \<Rightarrow> 'u globals \<Rightarrow> bool \<times> event list \<times> 'u closerFunc \<times> 'u globals" where
  "exec_at i cf g =
     (case exec cf g of
        (called, err, cf', g') \<Rightarrow>
          (err \<noteq> None, if called then [(i, err)] else [], cf',
           case err of None \<Rightarrow> g' | Some e \<Rightarrow> report e g'))"

text \<open>An entry whose callable is still there: \<open>cf.fn != nil\<close>.\<close>

definition pending :: "'u closerFunc \<Rightarrow> bool" where
  "pending cf = (fn cf \<noteq> None)"

text \<open>
  \<open>ys\<close> is the array \<open>xs\<close> after some passes: the same length, and each entry either as
  it is in \<open>xs\<close> or no longer pending.
\<close>

definition consumed_from :: "'u closerFunc list \<Rightarrow> 'u closerFunc list \<Rightarrow> bool" where
  "consumed_from xs ys = (length ys = length xs \<and> (\<forall>i<length xs. \<not> pending (ys ! i) \<or> ys ! i = xs ! i))"

text \<open>
  Executing the entries of a list one after the other, first to last, each once: the
  variables afterwards. For a batch in registration order, the specification's pass is
  \<open>run_in_order\<close> of the reversed batch.
\<close>

fun run_in_order :: "'u closerFunc list \<Rightarrow> 'u globals \<Rightarrow> 'u globals" where
  "run_in_order [] g = g"
| "run_in_order (cf # cfs) g = run_in_order cfs (snd (snd (snd (exec_at 0 cf g))))"

text \<open>The entry that the loop of \<open>deferFuncs\<close> builds for one supported argument.\<close>

definition entry_of :: "'u arg \<Rightarrow> 'u closerFunc" where
  "entry_of a = \<lparr>fn = (case type_switch a of Inl v \<Rightarrow> None | Inr f \<Rightarrow> f)\<rparr>"

text \<open>One listening goroutine exactly when the channel has been made.\<close>

definition listener_inv :: "'u process \<Rightarrow> bool" where
  "listener_inv p = (listeners p = (case sigCh (gC p) of None \<Rightarrow> 0 | Some c \<Rightarrow> 1))"

section \<open>A concrete program\<close>

text \<open>
  The variables as the package initialises them (lines 13-26; the default signals are
  SIGINT, SIGHUP and SIGTERM, numbered 2, 1 and 15 on Linux), with a log of integers as
  the state of the user, empty at the start.
\<close>

definition g0 :: "int list globals" where
  "g0 = \<lparr>ExitWithSignalCode = False, ExitCodeOk = 0, ExitCodeErr = 1,
         DefaultSignals = [SyscallSignal 2, SyscallSignal 1, SyscallSignal 15],
         OnError = None, user = []\<rparr>"

text \<open>\<open>func() { vals = append(vals, v) }\<close>, as in the package's test.\<close>

definition logger :: "int \<Rightarrow> int list func" where
  "logger v g = (None, g\<lparr>user := user g @ [v]\<rparr>)"

text \<open>\<open>func() { vals = append(vals, v); panic("boom") }\<close>.\<close>

definition boom :: "int \<Rightarrow> int list func" where
  "boom v g = (Some (PanicValue ''boom''), g\<lparr>user := user g @ [v]\<rparr>)"

text \<open>\<open>func() { closer.ExitCodeErr = c }\<close>, as in the package's signal test.\<close>

definition set_ExitCodeErr :: "int \<Rightarrow> 'u func" where
  "set_ExitCodeErr c g = (None, g\<lparr>ExitCodeErr := c\<rparr>)"

text \<open>A \<open>func() error\<close> that returns the error \<open>e\<close>, and one that panics with the value \<open>v\<close>.\<close>

definition failing :: "error \<Rightarrow> 'u func_error" where
  "failing e g = (Inr (Some e), g)"

definition panicking :: "panic_val \<Rightarrow> 'u func_error" where
  "panicking v g = (Inl v, g)"

text \<open>A sink that logs the length of the message of each error it is given.\<close>

definition length_sink :: "error \<Rightarrow> int list \<Rightarrow> int list" where
  "length_sink e l = (case e of Err m \<Rightarrow> l @ [int (length m)])"

section \<open>The pass, entry by entry\<close>

lemma cleanup_loop_done: "cleanup_loop (- 1) cfs errored tr g = (errored, cfs, tr, g)"
  by (simp add: cleanup_loop.simps)

lemma cleanup_loop_step:
  "cleanup_loop (int (length xs)) (xs @ x # ys) errored tr g =
     (case exec_at (length xs) x g of
        (b, t, x', g') \<Rightarrow> cleanup_loop (int (length xs) - 1) (xs @ x' # ys) (errored \<or> b) (tr @ t) g')"
  by (subst cleanup_loop.simps) (simp add: exec_at_def split: prod.splits option.splits)

lemma cleanup_Nil: "cleanup [] g = (False, [], [], g)"
  by (simp add: cleanup_def cleanup_loop_done)

lemma cleanup_loop_prefix:
  "cleanup_loop (int (length xs) - 1) (xs @ ys) errored tr g =
     (case cleanup xs g of (e, xs', t, g') \<Rightarrow> (errored \<or> e, xs' @ ys, tr @ t, g'))"
proof (induction xs arbitrary: ys errored tr g rule: rev_induct)
  case Nil
  show ?case by (simp add: cleanup_Nil cleanup_loop_done)
next
  case (snoc x xs)
  have l: "cleanup (xs @ [x]) g =
     (case exec_at (length xs) x g of
        (b, t, x', g') \<Rightarrow> cleanup_loop (int (length xs) - 1) (xs @ [x']) (False \<or> b) ([] @ t) g')"
    unfolding cleanup_def using cleanup_loop_step [of xs x "[]" False "[]" g] by simp
  show ?case
    using cleanup_loop_step [of xs x ys errored tr g]
    by (simp add: l snoc.IH split: prod.splits)
qed

lemma cleanup_snoc:
  "cleanup (xs @ [x]) g =
     (case exec_at (length xs) x g of
        (b, t, x', g') \<Rightarrow>
          (case cleanup xs g' of (e, xs', t', g'') \<Rightarrow> (b \<or> e, xs' @ [x'], t @ t', g'')))"
proof -
  have "cleanup (xs @ [x]) g =
     (case exec_at (length xs) x g of
        (b, t, x', g') \<Rightarrow> cleanup_loop (int (length xs) - 1) (xs @ [x']) (False \<or> b) ([] @ t) g')"
    unfolding cleanup_def using cleanup_loop_step [of xs x "[]" False "[]" g] by simp
  then show ?thesis by (simp add: cleanup_loop_prefix split: prod.splits)
qed

lemma exec_at_shift:
  "exec_at (n + i) cf g =
     (case exec_at i cf g of (b, t, cf', g') \<Rightarrow> (b, map (\<lambda>(k, e). (n + k, e)) t, cf', g'))"
  by (simp add: exec_at_def split: prod.splits)

lemma cleanup_append:
  "cleanup (xs @ ys) g =
     (case cleanup ys g of
        (e1, ys', t1, g1) \<Rightarrow>
          (case cleanup xs g1 of
             (e2, xs', t2, g2) \<Rightarrow>
               (e1 \<or> e2, xs' @ ys', map (\<lambda>(k, e). (length xs + k, e)) t1 @ t2, g2)))"
proof (induction ys arbitrary: g rule: rev_induct)
  case Nil
  show ?case by (simp add: cleanup_Nil split: prod.splits)
next
  case (snoc y ys)
  have "cleanup ((xs @ ys) @ [y]) g =
     (case exec_at (length xs + length ys) y g of
        (b, t, x', g') \<Rightarrow>
          (case cleanup (xs @ ys) g' of (e, xs', t', g'') \<Rightarrow> (b \<or> e, xs' @ [x'], t @ t', g'')))"
    using cleanup_snoc [of "xs @ ys" y g] by simp
  then show ?case
    by (simp add: snoc.IH cleanup_snoc [of ys y] exec_at_shift split: prod.splits)
qed

lemma exec_at_length_fn:
  "exec_at i cf g = (b, t, cf', g') \<Longrightarrow> map fst t = (if pending cf then [i] else [])"
  by (auto simp: pending_def exec_at_def exec_def split: option.splits prod.splits sum.splits)

lemma exec_at_errored:
  "exec_at i cf g = (b, t, cf', g') \<Longrightarrow> b = (\<exists>ev\<in>set t. snd ev \<noteq> None)"
  by (auto simp: exec_at_def exec_def split: option.splits prod.splits sum.splits)

lemma exec_at_consumes:
  "exec_at i cf g = (b, t, cf', g') \<Longrightarrow> fn cf' = None \<or> cf' = cf"
  by (auto simp: exec_at_def exec_def split: option.splits prod.splits sum.splits)

lemma cleanup_length: "cleanup cfs g = (e, cfs', tr, g') \<Longrightarrow> length cfs' = length cfs"
proof (induction cfs arbitrary: g e cfs' tr g' rule: rev_induct)
  case Nil
  then show ?case by (simp add: cleanup_Nil)
next
  case (snoc x xs)
  then show ?case
    by (auto simp: cleanup_snoc split: prod.splits)
qed

lemma cleanup_consumes:
  "cleanup cfs g = (e, cfs', tr, g') \<Longrightarrow> i < length cfs \<Longrightarrow> fn (cfs' ! i) = None \<or> cfs' ! i = cfs ! i"
proof (induction cfs arbitrary: g e cfs' tr g' rule: rev_induct)
  case Nil
  then show ?case by simp
next
  case (snoc x xs)
  obtain b t x' g1 where x: "exec_at (length xs) x g = (b, t, x', g1)"
    by (metis prod_cases4)
  obtain e2 xs' t2 g2 where xs: "cleanup xs g1 = (e2, xs', t2, g2)"
    by (metis prod_cases4)
  have c: "cfs' = xs' @ [x']"
    using snoc.prems(1) x xs by (simp add: cleanup_snoc)
  have len: "length xs' = length xs"
    using xs by (rule cleanup_length)
  show ?case
  proof (cases "i < length xs")
    case True
    then show ?thesis
      using snoc.IH [OF xs True] c len by (simp add: nth_append)
  next
    case False
    then have "i = length xs" using snoc.prems(2) by simp
    then show ?thesis
      using exec_at_consumes [OF x] c len by (simp add: nth_append)
  qed
qed

lemma cleanup_errored:
  "cleanup cfs g = (e, cfs', tr, g') \<Longrightarrow> e = (\<exists>ev\<in>set tr. snd ev \<noteq> None)"
proof (induction cfs arbitrary: g e cfs' tr g' rule: rev_induct)
  case Nil
  then show ?case by (auto simp: cleanup_Nil)
next
  case (snoc x xs)
  obtain b t x' g1 where x: "exec_at (length xs) x g = (b, t, x', g1)"
    by (metis prod_cases4)
  obtain e2 xs' t2 g2 where xs: "cleanup xs g1 = (e2, xs', t2, g2)"
    by (metis prod_cases4)
  have "e = (b \<or> e2)" and "tr = t @ t2"
    using snoc.prems x xs by (simp_all add: cleanup_snoc)
  then show ?case
    using exec_at_errored [OF x] snoc.IH [OF xs] by auto
qed

lemma pending_snoc:
  "filter (\<lambda>i. pending ((xs @ [x]) ! i)) [0..<length xs] =
   filter (\<lambda>i. pending (xs ! i)) [0..<length xs]"
  by (rule filter_cong) (simp_all add: nth_append)

lemma cleanup_calls:
  "cleanup cfs g = (e, cfs', tr, g') \<Longrightarrow>
   map fst tr = rev (filter (\<lambda>i. pending (cfs ! i)) [0..<length cfs])"
proof (induction cfs arbitrary: g e cfs' tr g' rule: rev_induct)
  case Nil
  then show ?case by (simp add: cleanup_Nil)
next
  case (snoc x xs)
  obtain b t x' g1 where x: "exec_at (length xs) x g = (b, t, x', g1)"
    by (metis prod_cases4)
  obtain e2 xs' t2 g2 where xs: "cleanup xs g1 = (e2, xs', t2, g2)"
    by (metis prod_cases4)
  have "tr = t @ t2"
    using snoc.prems x xs by (simp add: cleanup_snoc)
  then show ?case
    using exec_at_length_fn [OF x] snoc.IH [OF xs] by (simp add: pending_snoc)
qed

lemma exec_at_index: "snd (snd (snd (exec_at i cf g))) = snd (snd (snd (exec_at 0 cf g)))"
  by (simp add: exec_at_def split: prod.splits)

lemma cleanup_vars:
  "cleanup cfs g = (e, cfs', tr, g') \<Longrightarrow> g' = run_in_order (rev cfs) g"
proof (induction cfs arbitrary: g e cfs' tr g' rule: rev_induct)
  case Nil
  then show ?case by (simp add: cleanup_Nil)
next
  case (snoc x xs)
  obtain b t x' g1 where x: "exec_at (length xs) x g = (b, t, x', g1)"
    by (metis prod_cases4)
  obtain e2 xs' t2 g2 where xs: "cleanup xs g1 = (e2, xs', t2, g2)"
    by (metis prod_cases4)
  have "g' = g2"
    using snoc.prems x xs by (simp add: cleanup_snoc)
  moreover have "g1 = snd (snd (snd (exec_at 0 x g)))"
    using x exec_at_index [of "length xs" x g] by simp
  ultimately show ?case
    using snoc.IH [OF xs] by simp
qed

section \<open>Registration\<close>

lemma closerFunc_fn_update: "(cf :: 'u closerFunc)\<lparr>fn := f\<rparr> = \<lparr>fn = f\<rparr>"
  by (cases cf) simp

lemma type_switch_Inl: "type_switch a = Inl v \<Longrightarrow> a = Unsupported"
  by (cases a) (simp_all add: type_switch_def)

lemma fill_supported:
  "Unsupported \<notin> set as \<Longrightarrow> length cfs = i + length as \<Longrightarrow>
   fill i as cfs = Inr (take i cfs @ map entry_of as)"
proof (induction as arbitrary: i cfs)
  case Nil
  then show ?case by simp
next
  case (Cons a as)
  from Cons.prems(1) obtain f where f: "type_switch a = Inr f"
    by (cases "type_switch a") (auto dest: type_switch_Inl)
  have "fill (Suc i) as (cfs[i := (cfs ! i)\<lparr>fn := f\<rparr>]) =
        Inr (take (Suc i) (cfs[i := (cfs ! i)\<lparr>fn := f\<rparr>]) @ map entry_of as)"
    using Cons.prems by (intro Cons.IH) simp_all
  moreover have "take (Suc i) (cfs[i := (cfs ! i)\<lparr>fn := f\<rparr>]) = take i cfs @ [\<lparr>fn = f\<rparr>]"
    using Cons.prems(2) by (simp add: take_Suc_conv_app_nth closerFunc_fn_update)
  ultimately show ?case
    by (simp add: f entry_of_def)
qed

lemma fill_unsupported:
  "Unsupported \<in> set as \<Longrightarrow>
   fill i as cfs = Inl (PanicValue ''supported closers: func(), func() error and io.Closer'')"
proof (induction as arbitrary: i cfs)
  case Nil
  then show ?case by simp
next
  case (Cons a as)
  show ?case
  proof (cases "type_switch a")
    case (Inl v)
    then show ?thesis by (cases a) (simp_all add: type_switch_def)
  next
    case (Inr f)
    then have "a \<noteq> Unsupported" by (auto simp: type_switch_def)
    then have "Unsupported \<in> set as" using Cons.prems by auto
    then show ?thesis using Inr Cons.IH by simp
  qed
qed

lemma deferFuncs_supported:
  "Unsupported \<notin> set fns \<Longrightarrow>
   deferFuncs fns p =
     (Inr (Trigger (length (arrays p))),
      p\<lparr>gC := (gC p)\<lparr>closers := closers (gC p) @ map entry_of fns\<rparr>,
        arrays := arrays p @ [map entry_of fns]\<rparr>)"
  by (simp add: deferFuncs_def fill_supported)

lemma deferFuncs_unsupported:
  "Unsupported \<in> set fns \<Longrightarrow>
   deferFuncs fns p = (Inl (PanicValue ''supported closers: func(), func() error and io.Closer''), p)"
  by (simp add: deferFuncs_def fill_unsupported)

lemma get_keeps: "vars (get p) = vars p" "arrays (get p) = arrays p" "closers (gC (get p)) = closers (gC p)"
  by (simp_all add: get_def reinit_def signal_Notify_def signal_Stop_def Let_def)

section \<open>More on the pass: single entries, panics, consumed entries\<close>

lemma cleanup_single:
  "cleanup [cf] g = (case exec_at 0 cf g of (b, t, cf', g') \<Rightarrow> (b, [cf'], t, g'))"
  using cleanup_snoc [of "[]" cf g] by (simp add: cleanup_Nil split: prod.splits)

lemma cleanup_Cons_append:
  "cleanup (xs @ cf # ys) g =
     (case cleanup ys g of
        (e1, ys', t1, g1) \<Rightarrow>
          (case exec_at (length xs) cf g1 of
             (b, t, cf', g2) \<Rightarrow>
               (case cleanup xs g2 of
                  (e3, xs', t3, g3) \<Rightarrow>
                    (e1 \<or> b \<or> e3, xs' @ cf' # ys',
                     map (\<lambda>(k, e). (Suc (length xs) + k, e)) t1 @ t @ t3, g3))))"
  using cleanup_append [of "xs @ [cf]" ys g]
  by (simp add: cleanup_snoc split: prod.splits)

lemma exec_at_panic:
  "fn cf = Some f \<Longrightarrow> f g = (Inl v, g') \<Longrightarrow>
   exec_at i cf g = (True, [(i, Some (recovered v))], cf, report (recovered v) g')"
  by (simp add: exec_at_def exec_def)

lemma exec_returns_consumes:
  "fn cf = Some f \<Longrightarrow> f g = (Inr r, g') \<Longrightarrow> exec cf g = (True, r, cf\<lparr>fn := None\<rparr>, g')"
  by (simp add: exec_def)

lemma cleanup_nothing_pending:
  "\<forall>cf\<in>set cfs. \<not> pending cf \<Longrightarrow> cleanup cfs g = (False, cfs, [], g)"
proof (induction cfs rule: rev_induct)
  case Nil
  show ?case by (simp add: cleanup_Nil)
next
  case (snoc x xs)
  then have "exec_at (length xs) x g = (False, [], x, g)"
    by (simp add: exec_at_def exec_def pending_def)
  then show ?case
    using snoc by (simp add: cleanup_snoc)
qed

lemma consumed_from_refl: "consumed_from xs xs"
  by (simp add: consumed_from_def)

lemma consumed_from_trans: "consumed_from xs ys \<Longrightarrow> consumed_from ys zs \<Longrightarrow> consumed_from xs zs"
  by (auto simp: consumed_from_def)

lemma cleanup_consumed_from: "cleanup cfs g = (e, cfs', tr, g') \<Longrightarrow> consumed_from cfs cfs'"
  using cleanup_length [of cfs g e cfs' tr g'] cleanup_consumes [of cfs g e cfs' tr g']
  by (auto simp: consumed_from_def pending_def)

section \<open>Batches across the calls of a run\<close>

lemma invoke_batch:
  assumes "a < length (arrays p)"
  shows "a < length (arrays (snd (invoke t p))) \<and> consumed_from (arrays p ! a) (arrays (snd (invoke t p)) ! a)"
proof (cases t)
  case (Trigger b)
  show ?thesis
  proof (cases "b < length (arrays p)")
    case False
    then show ?thesis using assms Trigger by (simp add: invoke_def consumed_from_refl)
  next
    case True
    obtain e cfs' tr g' where c: "cleanup (arrays p ! b) (vars p) = (e, cfs', tr, g')"
      by (metis prod_cases4)
    then have i: "snd (invoke t p) = p\<lparr>arrays := (arrays p)[b := cfs'], vars := g'\<rparr>"
      using True Trigger by (simp add: invoke_def)
    show ?thesis
    proof (cases "a = b")
      case True
      then show ?thesis
        using assms i cleanup_consumed_from [OF c] by simp
    next
      case False
      then show ?thesis
        using assms i by (simp add: consumed_from_refl)
    qed
  qed
qed

lemma Defer_batch:
  assumes "a < length (arrays p)"
  shows "a < length (arrays (snd (Defer fns p))) \<and> arrays (snd (Defer fns p)) ! a = arrays p ! a"
proof (cases "Unsupported \<in> set fns")
  case True
  then show ?thesis
    using assms by (simp add: Defer_def deferFuncs_unsupported get_keeps)
next
  case False
  then show ?thesis
    using assms by (simp add: Defer_def deferFuncs_supported get_keeps nth_append)
qed

lemma SetSignals_arrays: "arrays (SetSignals signals p) = arrays p"
  by (simp add: SetSignals_def reinit_def signal_Notify_def signal_Stop_def Let_def)

lemma step_batch:
  "a < length (arrays p) \<Longrightarrow>
   a < length (arrays (step c p)) \<and> consumed_from (arrays p ! a) (arrays (step c p) ! a)"
  by (cases c) (simp_all add: SetSignals_arrays Defer_batch invoke_batch consumed_from_refl)

lemma run_batch:
  "a < length (arrays p) \<Longrightarrow>
   a < length (arrays (run cs p)) \<and> consumed_from (arrays p ! a) (arrays (run cs p) ! a)"
proof (induction cs arbitrary: p)
  case Nil
  then show ?case by (simp add: consumed_from_refl)
next
  case (Cons c cs)
  have s: "a < length (arrays (step c p))" "consumed_from (arrays p ! a) (arrays (step c p) ! a)"
    using step_batch [OF Cons.prems] by simp_all
  show ?case
    using Cons.IH [OF s(1)] consumed_from_trans [OF s(2)] by simp
qed

lemma Defer_registered:
  assumes "Defer fns p0 = (Inr (Trigger a), p1)"
  shows "a < length (arrays p1) \<and> arrays p1 ! a = map entry_of fns"
proof -
  have "Unsupported \<notin> set fns"
    using assms by (auto simp: Defer_def deferFuncs_unsupported)
  then show ?thesis
    using assms by (auto simp: Defer_def deferFuncs_supported)
qed

section \<open>The listening goroutine\<close>

lemma reinit_initialized:
  "sigCh (gC p) \<noteq> None \<Longrightarrow>
   reinit force signals p =
     (if force then p\<lparr>notified := [if signals = [] then DefaultSignals (vars p) else signals]\<rparr> else p)"
  by (auto simp: reinit_def signal_Notify_def signal_Stop_def Let_def)

lemma reinit_inv: "listener_inv p \<Longrightarrow> listener_inv (reinit force signals p)"
  by (auto simp: listener_inv_def reinit_def signal_Notify_def signal_Stop_def Let_def)

lemma get_inv: "listener_inv p \<Longrightarrow> listener_inv (get p)"
  using reinit_inv [of p False "[]"] by (simp add: get_def Let_def listener_inv_def)

lemma deferFuncs_inv: "listener_inv p \<Longrightarrow> listener_inv (snd (deferFuncs fns p))"
  by (simp add: deferFuncs_def listener_inv_def split: sum.splits)

lemma invoke_inv: "listener_inv p \<Longrightarrow> listener_inv (snd (invoke t p))"
  by (simp add: invoke_def listener_inv_def split: trigger.splits prod.splits)

lemma step_inv: "listener_inv p \<Longrightarrow> listener_inv (step c p)"
  by (cases c) (simp_all add: SetSignals_def Defer_def reinit_inv get_inv deferFuncs_inv invoke_inv)

lemma run_inv: "listener_inv p \<Longrightarrow> listener_inv (run cs p)"
  by (induction cs arbitrary: p) (simp_all add: step_inv)

lemma init_inv: "listener_inv (init_process g)"
  by (simp add: listener_inv_def init_process_def)

section \<open>The claims\<close>

text \<open>
  C1. The specification asks that no action runs twice, also when it was run through the closure
  of its batch and the whole stack is cleaned up later. Evaluated on the source: one
  logging action is registered, the closure that \<open>Defer\<close> returned is called (the log is
  \<open>[7]\<close>), and then \<open>Exit(-1)\<close> is called: the log is \<open>[7, 7]\<close>. The closure clears
  the callable in the array it captured, while \<open>append\<close> has copied the entry into the
  stack of the closer, where the callable is still set.
\<close>

theorem local_trigger_then_exit_runs_action_twice:
  "fst (Defer [FuncVoid (logger 7)] (init_process g0)) = Inr (Trigger 0)
   \<and> user (vars (snd (invoke (Trigger 0) (snd (Defer [FuncVoid (logger 7)] (init_process g0)))))) = [7]
   \<and> user (vars (snd (Exit (- 1)
        (snd (invoke (Trigger 0) (snd (Defer [FuncVoid (logger 7)] (init_process g0)))))))) = [7, 7]"
  by (simp add: init_process_def g0_def get_def reinit_def signal_Notify_def Defer_def deferFuncs_def
        type_switch_def returning_nil_def invoke_def Exit_def
        cleanup_def cleanup_loop.simps exec_def report_def recovered_def logger_def Let_def)

text \<open>
  C2. The specification asks that an executed action has its callable cleared whatever the
  outcome, a panic included. Evaluated on the source: \<open>exec\<close> on an entry whose callable
  logs and panics returns the recovered error and leaves the entry as it was, because
  the panic leaves \<open>err, cf.fn = cf.fn(), nil\<close> before the assignment; a second \<open>exec\<close>
  calls the callable again (the log is \<open>[9, 9]\<close>). An entry whose callable returns is
  cleared (\<open>exec_returns_consumes\<close>), and a pass over cleared entries does nothing
  (\<open>cleanup_nothing_pending\<close>).
\<close>

theorem panicking_callable_is_not_cleared:
  "exec \<lparr>fn = Some (returning_nil (boom 9))\<rparr> g0 =
     (True, Some (Err ''panic: boom''), \<lparr>fn = Some (returning_nil (boom 9))\<rparr>, g0\<lparr>user := [9]\<rparr>)
   \<and> exec \<lparr>fn = Some (returning_nil (boom 9))\<rparr> (g0\<lparr>user := [9]\<rparr>) =
     (True, Some (Err ''panic: boom''), \<lparr>fn = Some (returning_nil (boom 9))\<rparr>, g0\<lparr>user := [9, 9]\<rparr>)"
  by (simp add: exec_def returning_nil_def boom_def recovered_def g0_def)

text \<open>
  C3. A batch is registered with \<open>Defer\<close>; the program goes on with any calls \<open>cs\<close>
  (other registrations, \<open>SetSignals\<close>, calls of this or other closures); then the
  closure of the batch is called. At that moment the captured array still holds the
  batch in registration order, each entry as registered or already consumed. The call
  invokes exactly the entries still pending, each once, from the last index down to
  the first, and the variables afterwards are those got by executing the entries of
  the array one by one in reversed order.
\<close>

theorem trigger_runs_pending_in_reverse_order:
  assumes "Defer fns p0 = (Inr (Trigger a), p1)"
    and "invoke (Trigger a) (run cs p1) = (tr, p')"
  shows "consumed_from (map entry_of fns) (arrays (run cs p1) ! a)
         \<and> map fst tr = rev (filter (\<lambda>i. pending (arrays (run cs p1) ! a ! i)) [0..<length fns])
         \<and> vars p' = run_in_order (rev (arrays (run cs p1) ! a)) (vars (run cs p1))"
proof -
  let ?p = "run cs p1"
  have r: "a < length (arrays p1)" "arrays p1 ! a = map entry_of fns"
    using Defer_registered [OF assms(1)] by simp_all
  have b: "a < length (arrays ?p)" "consumed_from (map entry_of fns) (arrays ?p ! a)"
    using run_batch [OF r(1), of cs] r(2) by simp_all
  then have len: "length (arrays ?p ! a) = length fns"
    by (simp add: consumed_from_def)
  obtain e cfs' where c: "cleanup (arrays ?p ! a) (vars ?p) = (e, cfs', tr, vars p')"
    using assms(2) b(1) by (auto simp: invoke_def split: prod.splits)
  show ?thesis
    using b(2) cleanup_calls [OF c] cleanup_vars [OF c] len by simp
qed

theorem trigger_runs_pending_in_reverse_order_witness:
  "Defer [FuncVoid (logger 1), FuncVoid (logger 0)] (init_process g0) =
     (Inr (Trigger 0), snd (Defer [FuncVoid (logger 1), FuncVoid (logger 0)] (init_process g0)))
   \<and> fst (invoke (Trigger 0)
        (run [CallDefer [FuncVoid (logger 5)]]
           (snd (Defer [FuncVoid (logger 1), FuncVoid (logger 0)] (init_process g0))))) =
       [(1, None), (0, None)]
   \<and> user (vars (snd (invoke (Trigger 0)
        (run [CallDefer [FuncVoid (logger 5)]]
           (snd (Defer [FuncVoid (logger 1), FuncVoid (logger 0)] (init_process g0))))))) = [0, 1]
   \<and> user (run_in_order
        (rev (arrays (run [CallDefer [FuncVoid (logger 5)]]
           (snd (Defer [FuncVoid (logger 1), FuncVoid (logger 0)] (init_process g0)))) ! 0)) g0) = [0, 1]"
proof -
  let ?p1 = "snd (Defer [FuncVoid (logger 1), FuncVoid (logger 0)] (init_process g0))"
  let ?p = "run [CallDefer [FuncVoid (logger 5)]] ?p1"
  have d: "Defer [FuncVoid (logger 1), FuncVoid (logger 0)] (init_process g0) = (Inr (Trigger 0), ?p1)"
    by (rule prod_eqI) (simp_all add: init_process_def g0_def get_def reinit_def signal_Notify_def Defer_def deferFuncs_def
        type_switch_def returning_nil_def invoke_def
        cleanup_def cleanup_loop.simps exec_def report_def recovered_def logger_def Let_def)
  have i: "invoke (Trigger 0) ?p = (fst (invoke (Trigger 0) ?p), snd (invoke (Trigger 0) ?p))"
    by simp
  have v: "vars ?p = g0"
    by (simp add: init_process_def g0_def get_def reinit_def signal_Notify_def Defer_def deferFuncs_def
        type_switch_def returning_nil_def invoke_def
        cleanup_def cleanup_loop.simps exec_def report_def recovered_def logger_def Let_def)
  have t: "fst (invoke (Trigger 0) ?p) = [(1, None), (0, None)]"
    by (simp add: init_process_def g0_def get_def reinit_def signal_Notify_def Defer_def deferFuncs_def
        type_switch_def returning_nil_def invoke_def
        cleanup_def cleanup_loop.simps exec_def report_def recovered_def logger_def Let_def)
  show ?thesis
    using trigger_runs_pending_in_reverse_order [OF d i] d t v
    by (simp add: init_process_def g0_def get_def reinit_def signal_Notify_def Defer_def deferFuncs_def
        type_switch_def returning_nil_def invoke_def
        cleanup_def cleanup_loop.simps exec_def report_def recovered_def logger_def Let_def exec_at_def)
qed

text \<open>
  C4. The specification asks that a second call of the same closure does nothing. Evaluated on
  the source: a batch of one action that logs and panics is registered and its closure
  is called twice. Both calls invoke the action (the log is \<open>[9, 9]\<close>), since the
  panicking callable was not cleared by the first call.
\<close>

theorem second_trigger_call_reruns_panicking_action:
  "fst (Defer [FuncVoid (boom 9)] (init_process g0)) = Inr (Trigger 0)
   \<and> fst (invoke (Trigger 0) (snd (Defer [FuncVoid (boom 9)] (init_process g0)))) =
       [(0, Some (Err ''panic: boom''))]
   \<and> fst (invoke (Trigger 0) (snd (invoke (Trigger 0) (snd (Defer [FuncVoid (boom 9)] (init_process g0)))))) =
       [(0, Some (Err ''panic: boom''))]
   \<and> user (vars (snd (invoke (Trigger 0) (snd (invoke (Trigger 0)
        (snd (Defer [FuncVoid (boom 9)] (init_process g0)))))))) = [9, 9]"
  by (simp add: init_process_def g0_def get_def reinit_def signal_Notify_def Defer_def deferFuncs_def
        type_switch_def returning_nil_def invoke_def
        cleanup_def cleanup_loop.simps exec_def report_def recovered_def boom_def Let_def)

text \<open>
  C5. \<open>Exit(code)\<close> runs the pass over the whole stack of the initialised closer and
  ends the process there. With a code other than \<open>-1\<close> the exit code is that code.
  With \<open>-1\<close> it is \<open>ExitCodeOk\<close> when every call of the pass returned a nil error, and
  \<open>ExitCodeErr\<close> when some call returned an error or panicked; both variables are read
  after the pass.
\<close>

theorem exit_code_policy:
  assumes "Exit code p = (c, p')"
    and "cleanup (closers (gC (get p))) (vars (get p)) = (erred, cfs', tr, g')"
  shows "p' = (get p)\<lparr>gC := (gC (get p))\<lparr>closers := cfs'\<rparr>, vars := g'\<rparr>
         \<and> (code \<noteq> - 1 \<longrightarrow> c = code)
         \<and> (code = - 1 \<and> (\<forall>ev\<in>set tr. snd ev = None) \<longrightarrow> c = ExitCodeOk g')
         \<and> (code = - 1 \<and> (\<exists>ev\<in>set tr. snd ev \<noteq> None) \<longrightarrow> c = ExitCodeErr g')"
proof -
  have e: "erred = (\<exists>ev\<in>set tr. snd ev \<noteq> None)"
    using assms(2) by (rule cleanup_errored)
  show ?thesis
    using assms e by (auto simp: Exit_def Let_def split: if_splits)
qed

theorem exit_code_policy_witness:
  "fst (Exit (- 1) (snd (Defer [FuncVoid (logger 1), FuncError (Some (failing (Err ''disk full'')))]
                          (init_process g0)))) = 1
   \<and> fst (Exit 42 (snd (Defer [FuncVoid (logger 1), FuncError (Some (failing (Err ''disk full'')))]
                          (init_process g0)))) = 42
   \<and> fst (Exit (- 1) (snd (Defer [FuncVoid (logger 1)] (init_process g0)))) = 0"
proof -
  let ?p = "snd (Defer [FuncVoid (logger 1), FuncError (Some (failing (Err ''disk full'')))] (init_process g0))"
  let ?q = "snd (Defer [FuncVoid (logger 1)] (init_process g0))"
  let ?cp = "cleanup (closers (gC (get ?p))) (vars (get ?p))"
  let ?cq = "cleanup (closers (gC (get ?q))) (vars (get ?q))"
  have cp: "?cp = (True, fst (snd ?cp), [(1, Some (Err ''disk full'')), (0, None)], snd (snd (snd ?cp)))"
    by (intro prod_eqI) (simp_all add: init_process_def g0_def get_def reinit_def signal_Notify_def Defer_def deferFuncs_def
        type_switch_def returning_nil_def
        cleanup_def cleanup_loop.simps exec_def report_def recovered_def logger_def failing_def Let_def)
  have cq: "?cq = (False, fst (snd ?cq), [(0, None)], snd (snd (snd ?cq)))"
    by (intro prod_eqI) (simp_all add: init_process_def g0_def get_def reinit_def signal_Notify_def Defer_def deferFuncs_def
        type_switch_def returning_nil_def
        cleanup_def cleanup_loop.simps exec_def report_def recovered_def logger_def failing_def Let_def)
  have gp: "ExitCodeErr (snd (snd (snd ?cp))) = 1"
    by (simp add: init_process_def g0_def get_def reinit_def signal_Notify_def Defer_def deferFuncs_def
        type_switch_def returning_nil_def
        cleanup_def cleanup_loop.simps exec_def report_def recovered_def logger_def failing_def Let_def)
  have gq: "ExitCodeOk (snd (snd (snd ?cq))) = 0"
    by (simp add: init_process_def g0_def get_def reinit_def signal_Notify_def Defer_def deferFuncs_def
        type_switch_def returning_nil_def
        cleanup_def cleanup_loop.simps exec_def report_def recovered_def logger_def failing_def Let_def)
  have "fst (Exit (- 1) ?p) = 1"
    using exit_code_policy [OF _ cp, of "- 1" "fst (Exit (- 1) ?p)" "snd (Exit (- 1) ?p)"] gp
    by simp
  moreover have "fst (Exit 42 ?p) = 42"
    using exit_code_policy [OF _ cp, of 42 "fst (Exit 42 ?p)" "snd (Exit 42 ?p)"]
    by simp
  moreover have "fst (Exit (- 1) ?q) = 0"
    using exit_code_policy [OF _ cq, of "- 1" "fst (Exit (- 1) ?q)" "snd (Exit (- 1) ?q)"] gq
    by simp
  ultimately show ?thesis by simp
qed

text \<open>
  C6. For a received signal the listener runs the pass over the whole stack and ends
  the process: with the signal's number when \<open>ExitWithSignalCode\<close> is set and the value
  received is a \<open>syscall.Signal\<close>, and with \<open>ExitCodeErr\<close> otherwise; both variables
  are read after the pass.
\<close>

theorem signal_exit_code:
  assumes "waitForSignal sig p = (c, p')"
    and "cleanup (closers (gC p)) (vars p) = (errored, cfs', tr, g')"
  shows "p' = p\<lparr>gC := (gC p)\<lparr>closers := cfs'\<rparr>, vars := g'\<rparr>
         \<and> (\<forall>n. ExitWithSignalCode g' \<and> sig = SyscallSignal n \<longrightarrow> c = n)
         \<and> (\<not> ExitWithSignalCode g' \<or> (\<exists>s. sig = OtherSignal s) \<longrightarrow> c = ExitCodeErr g')"
  using assms by (auto simp: waitForSignal_def Let_def split: if_splits os_signal.splits)

theorem signal_exit_code_witness:
  "fst (waitForSignal (SyscallSignal 15)
          (snd (Defer [FuncVoid (set_ExitCodeErr 55)] (init_process g0)))) = 55
   \<and> fst (waitForSignal (SyscallSignal 15)
          (snd (Defer [FuncVoid (set_ExitCodeErr 55)] (init_process (g0\<lparr>ExitWithSignalCode := True\<rparr>))))) = 15
   \<and> fst (waitForSignal (OtherSignal ''custom'')
          (snd (Defer [FuncVoid (set_ExitCodeErr 55)] (init_process (g0\<lparr>ExitWithSignalCode := True\<rparr>))))) = 55"
proof -
  let ?p = "snd (Defer [FuncVoid (set_ExitCodeErr 55)] (init_process g0))"
  let ?q = "snd (Defer [FuncVoid (set_ExitCodeErr 55)] (init_process (g0\<lparr>ExitWithSignalCode := True\<rparr>)))"
  let ?cp = "cleanup (closers (gC ?p)) (vars ?p)"
  let ?cq = "cleanup (closers (gC ?q)) (vars ?q)"
  have gp: "\<not> ExitWithSignalCode (snd (snd (snd ?cp)))" "ExitCodeErr (snd (snd (snd ?cp))) = 55"
    by (simp_all add: init_process_def g0_def get_def reinit_def signal_Notify_def Defer_def deferFuncs_def
        type_switch_def returning_nil_def
        cleanup_def cleanup_loop.simps exec_def report_def recovered_def set_ExitCodeErr_def Let_def)
  have gq: "ExitWithSignalCode (snd (snd (snd ?cq)))" "ExitCodeErr (snd (snd (snd ?cq))) = 55"
    by (simp_all add: init_process_def g0_def get_def reinit_def signal_Notify_def Defer_def deferFuncs_def
        type_switch_def returning_nil_def
        cleanup_def cleanup_loop.simps exec_def report_def recovered_def set_ExitCodeErr_def Let_def)
  have "fst (waitForSignal (SyscallSignal 15) ?p) = 55"
    using signal_exit_code [of "SyscallSignal 15" ?p "fst (waitForSignal (SyscallSignal 15) ?p)"
        "snd (waitForSignal (SyscallSignal 15) ?p)" "fst ?cp" "fst (snd ?cp)" "fst (snd (snd ?cp))"
        "snd (snd (snd ?cp))"] gp
    by simp
  moreover have "fst (waitForSignal (SyscallSignal 15) ?q) = 15"
    using signal_exit_code [of "SyscallSignal 15" ?q "fst (waitForSignal (SyscallSignal 15) ?q)"
        "snd (waitForSignal (SyscallSignal 15) ?q)" "fst ?cq" "fst (snd ?cq)" "fst (snd (snd ?cq))"
        "snd (snd (snd ?cq))"] gq
    by simp
  moreover have "fst (waitForSignal (OtherSignal ''custom'') ?q) = 55"
    using signal_exit_code [of "OtherSignal ''custom''" ?q "fst (waitForSignal (OtherSignal ''custom'') ?q)"
        "snd (waitForSignal (OtherSignal ''custom'') ?q)" "fst ?cq" "fst (snd ?cq)" "fst (snd (snd ?cq))"
        "snd (snd (snd ?cq))"] gq
    by simp
  ultimately show ?thesis by simp
qed

text \<open>
  C7. Let the entry \<open>cf\<close> stand between the entries \<open>xs\<close> before it and \<open>ys\<close> after it
  in the array, and let its callable panic with \<open>v\<close> when it is called, that is, in the
  variables \<open>g1\<close> left by the pass over \<open>ys\<close>. Then the pass over the whole array
  returns: its result is \<open>True\<close>, the call is recorded with the error made from \<open>v\<close>,
  that error is given to the sink if one is set (\<open>report\<close>), and the pass goes on over
  \<open>xs\<close> from there, invoking every pending entry of \<open>xs\<close> in reverse order.
\<close>

theorem panic_is_reported_and_pass_continues:
  assumes "fn cf = Some f"
    and "cleanup ys g = (e1, ys', t1, g1)"
    and "f g1 = (Inl v, g2)"
    and "cleanup xs (report (recovered v) g2) = (e3, xs', t3, g3)"
  shows "(\<exists>cfs'. cleanup (xs @ cf # ys) g =
            (True, cfs',
             map (\<lambda>(k, e). (Suc (length xs) + k, e)) t1 @ (length xs, Some (recovered v)) # t3,
             g3))
         \<and> map fst t3 = rev (filter (\<lambda>i. pending (xs ! i)) [0..<length xs])"
proof -
  have "exec_at (length xs) cf g1 =
          (True, [(length xs, Some (recovered v))], cf, report (recovered v) g2)"
    using assms(1,3) by (rule exec_at_panic)
  then have "cleanup (xs @ cf # ys) g =
          (True, xs' @ cf # ys',
           map (\<lambda>(k, e). (Suc (length xs) + k, e)) t1 @ (length xs, Some (recovered v)) # t3, g3)"
    using assms(2,4) by (simp add: cleanup_Cons_append)
  moreover have "map fst t3 = rev (filter (\<lambda>i. pending (xs ! i)) [0..<length xs])"
    using assms(4) by (rule cleanup_calls)
  ultimately show ?thesis by blast
qed

theorem panic_is_reported_and_pass_continues_witness:
  "cleanup [\<lparr>fn = Some (returning_nil (logger 1))\<rparr>, \<lparr>fn = Some (returning_nil (boom 9))\<rparr>,
            \<lparr>fn = Some (returning_nil (logger 3))\<rparr>] (g0\<lparr>OnError := Some length_sink\<rparr>) =
     (True,
      [\<lparr>fn = None\<rparr>, \<lparr>fn = Some (returning_nil (boom 9))\<rparr>, \<lparr>fn = None\<rparr>],
      [(2, None), (1, Some (Err ''panic: boom'')), (0, None)],
      g0\<lparr>OnError := Some length_sink, user := [3, 9, 11, 1]\<rparr>)"
proof -
  let ?g = "g0\<lparr>OnError := Some length_sink\<rparr>"
  have f: "fn \<lparr>fn = Some (returning_nil (boom 9))\<rparr> = Some (returning_nil (boom 9))"
    by simp
  have ys: "cleanup [\<lparr>fn = Some (returning_nil (logger 3))\<rparr>] ?g =
              (False, [\<lparr>fn = None\<rparr>], [(0, None)], ?g\<lparr>user := [3]\<rparr>)"
    by (simp add: g0_def returning_nil_def cleanup_def cleanup_loop.simps exec_def report_def recovered_def
        logger_def boom_def length_sink_def)
  have b: "returning_nil (boom 9) (?g\<lparr>user := [3]\<rparr>) = (Inl (PanicValue ''boom''), ?g\<lparr>user := [3, 9]\<rparr>)"
    by (simp add: g0_def returning_nil_def cleanup_def cleanup_loop.simps exec_def report_def recovered_def
        logger_def boom_def length_sink_def)
  have xs: "cleanup [\<lparr>fn = Some (returning_nil (logger 1))\<rparr>]
              (report (recovered (PanicValue ''boom'')) (?g\<lparr>user := [3, 9]\<rparr>)) =
              (False, [\<lparr>fn = None\<rparr>], [(0, None)], ?g\<lparr>user := [3, 9, 11, 1]\<rparr>)"
    by (simp add: g0_def returning_nil_def cleanup_def cleanup_loop.simps exec_def report_def recovered_def
        logger_def boom_def length_sink_def)
  have "cleanup [\<lparr>fn = Some (returning_nil (logger 1))\<rparr>, \<lparr>fn = Some (returning_nil (boom 9))\<rparr>,
            \<lparr>fn = Some (returning_nil (logger 3))\<rparr>] ?g =
     (True,
      [\<lparr>fn = None\<rparr>, \<lparr>fn = Some (returning_nil (boom 9))\<rparr>, \<lparr>fn = None\<rparr>],
      [(2, None), (1, Some (Err ''panic: boom'')), (0, None)],
      ?g\<lparr>user := [3, 9, 11, 1]\<rparr>)"
    by (simp add: g0_def returning_nil_def cleanup_def cleanup_loop.simps exec_def report_def recovered_def
        logger_def boom_def length_sink_def)
  then show ?thesis
    using panic_is_reported_and_pass_continues [OF f ys b xs]
    by (simp add: recovered_def)
qed

text \<open>
  C8. In every run of the process there is at most one listening goroutine. On a
  closer whose channel has been made, \<open>reinit\<close> without force changes nothing, and
  \<open>reinit\<close> with force keeps the goroutine and the channel and leaves a single
  registration with package \<open>os/signal\<close>, for the new signals (the default signals when
  none are given).
\<close>

theorem listener_started_at_most_once:
  "listeners (run cs (init_process g)) \<le> 1
   \<and> (sigCh (gC p) \<noteq> None \<longrightarrow> reinit False signals p = p)
   \<and> (sigCh (gC p) \<noteq> None \<longrightarrow>
        listeners (reinit True signals p) = listeners p
        \<and> sigCh (gC (reinit True signals p)) = sigCh (gC p)
        \<and> notified (reinit True signals p) =
            [if signals = [] then DefaultSignals (vars p) else signals])"
proof -
  have "listener_inv (run cs (init_process g))"
    by (rule run_inv [OF init_inv])
  then have "listeners (run cs (init_process g)) \<le> 1"
    by (simp add: listener_inv_def split: option.splits)
  then show ?thesis
    by (simp add: reinit_initialized)
qed

theorem listener_started_at_most_once_witness:
  "listeners (run [CallSetSignals [SyscallSignal 2], CallDefer [FuncVoid (logger 1)], CallSetSignals []]
                (init_process g0)) = 1
   \<and> sigCh (gC (get (init_process g0))) \<noteq> None
   \<and> reinit False [SyscallSignal 3] (get (init_process g0)) = get (init_process g0)
   \<and> listeners (reinit True [SyscallSignal 3] (get (init_process g0))) = 1
   \<and> notified (get (init_process g0)) = [[SyscallSignal 2, SyscallSignal 1, SyscallSignal 15]]
   \<and> notified (reinit True [SyscallSignal 3] (get (init_process g0))) = [[SyscallSignal 3]]"
  using listener_started_at_most_once
          [of "[CallSetSignals [SyscallSignal 2], CallDefer [FuncVoid (logger 1)], CallSetSignals []]"
              g0 "get (init_process g0)" "[SyscallSignal 3]"]
  by (simp add: init_process_def g0_def get_def reinit_def signal_Notify_def signal_Stop_def
        SetSignals_def Defer_def deferFuncs_def type_switch_def)

text \<open>
  C9. Registering an argument that is neither a \<open>func()\<close>, a \<open>func() error\<close> nor an
  \<open>io.Closer\<close> panics in \<open>Defer\<close> itself: no closure is returned, and the stack of the
  closer, the arrays of earlier batches and the variables are as before the call (only
  the one-time initialisation of \<open>get\<close> has happened), so nothing of the batch was
  stored or run, whatever the other arguments are.
\<close>

theorem unsupported_shape_panics_at_registration:
  assumes "Unsupported \<in> set fns"
  shows "Defer fns p = (Inl (PanicValue ''supported closers: func(), func() error and io.Closer''), get p)
         \<and> closers (gC (get p)) = closers (gC p) \<and> arrays (get p) = arrays p \<and> vars (get p) = vars p"
  using assms by (simp add: Defer_def deferFuncs_unsupported get_keeps)

theorem unsupported_shape_panics_at_registration_witness:
  "Unsupported \<in> set [FuncVoid (logger 1), Unsupported, FuncVoid (logger 2)]
   \<and> Defer [FuncVoid (logger 1), Unsupported, FuncVoid (logger 2)] (init_process g0) =
       (Inl (PanicValue ''supported closers: func(), func() error and io.Closer''),
        get (init_process g0))
   \<and> closers (gC (get (init_process g0))) = []
   \<and> arrays (get (init_process g0)) = []
   \<and> vars (get (init_process g0)) = g0"
  using unsupported_shape_panics_at_registration
          [of "[FuncVoid (logger 1), Unsupported, FuncVoid (logger 2)]" "init_process g0"]
  by (simp add: init_process_def)

text \<open>
  C10. When the callable of an entry panics with a value that is an \<open>error\<close>, \<open>exec\<close>
  returns that very value and the pass gives it to the sink; when it panics with any
  other value, the error returned and reported is a new one whose message is
  \<open>panic: \<close> followed by the rendering of the value.
\<close>

theorem recovered_error_is_reported_unchanged:
  assumes "fn cf = Some f" and "f g = (Inl v, g')"
  shows "(\<forall>e. v = PanicError e \<longrightarrow>
            fst (snd (exec cf g)) = Some e
            \<and> (\<exists>cfs'. cleanup [cf] g = (True, cfs', [(0, Some e)], report e g')))
         \<and> (\<forall>s. v = PanicValue s \<longrightarrow>
            fst (snd (exec cf g)) = Some (Err (''panic: '' @ s))
            \<and> (\<exists>cfs'. cleanup [cf] g =
                  (True, cfs', [(0, Some (Err (''panic: '' @ s)))], report (Err (''panic: '' @ s)) g')))"
proof -
  have x: "exec cf g = (True, Some (recovered v), cf, g')"
    using assms by (simp add: exec_def)
  have c: "cleanup [cf] g = (True, [cf], [(0, Some (recovered v))], report (recovered v) g')"
    using exec_at_panic [OF assms, of 0] by (simp add: cleanup_single)
  show ?thesis
    using x c by (auto simp: recovered_def)
qed

theorem recovered_error_is_reported_unchanged_witness:
  "fst (snd (exec \<lparr>fn = Some (panicking (PanicError (Err ''EOF'')))\<rparr> (g0\<lparr>OnError := Some length_sink\<rparr>))) =
     Some (Err ''EOF'')
   \<and> user (snd (snd (snd (cleanup [\<lparr>fn = Some (panicking (PanicError (Err ''EOF'')))\<rparr>]
                              (g0\<lparr>OnError := Some length_sink\<rparr>))))) = [3]
   \<and> fst (snd (exec \<lparr>fn = Some (panicking (PanicValue ''42''))\<rparr> (g0\<lparr>OnError := Some length_sink\<rparr>))) =
     Some (Err ''panic: 42'')
   \<and> user (snd (snd (snd (cleanup [\<lparr>fn = Some (panicking (PanicValue ''42''))\<rparr>]
                              (g0\<lparr>OnError := Some length_sink\<rparr>))))) = [9]"
proof -
  let ?g = "g0\<lparr>OnError := Some length_sink\<rparr>"
  have e: "fn \<lparr>fn = Some (panicking (PanicError (Err ''EOF'')))\<rparr> = Some (panicking (PanicError (Err ''EOF'')))"
    "panicking (PanicError (Err ''EOF'')) ?g = (Inl (PanicError (Err ''EOF'')), ?g)"
    by (simp_all add: panicking_def)
  have v: "fn \<lparr>fn = Some (panicking (PanicValue ''42''))\<rparr> = Some (panicking (PanicValue ''42''))"
    "panicking (PanicValue ''42'') ?g = (Inl (PanicValue ''42''), ?g)"
    by (simp_all add: panicking_def)
  have r: "user (report (Err ''EOF'') ?g) = [3]" "user (report (Err ''panic: 42'') ?g) = [9]"
    by (simp_all add: report_def g0_def length_sink_def)
  show ?thesis
    using recovered_error_is_reported_unchanged [OF e] recovered_error_is_reported_unchanged [OF v] r
    by auto
qed

end
